theory Spec2Isabelle
  imports Complex_Main
begin

section \<open>Geometry normaliser (server/routes/aoiRoutes.js)\<close>

text \<open>
  A coordinate pair is the two-element array \<open>[lng, lat]\<close> of the request schema, a ring
  is an array of pairs, and a geometry is the tagged union of the schema
  (\<open>Point | Polygon | MultiPolygon\<close>).  The number type is left abstract: the definitions
  only use the operations the source uses (\<open>+ - * /\<close>, comparison with \<open>0\<close> and \<open>1\<close>,
  \<open><\<close>), and nothing is assumed about them, so every theorem that is stated for an
  arbitrary number type holds whatever the arithmetic computes.  Numbers are compared by
  value (\<open>===\<close> on the finite numbers the schema lets through).
\<close>

type_synonym 'a point = "'a \<times> 'a"
type_synonym 'a ring = "'a point list"

datatype 'a geometry =
    Point "'a point"
  | Polygon "'a ring list"
  | MultiPolygon "'a ring list list"

text \<open>
  Reading \<open>ring[0]\<close> of an empty ring gives \<open>undefined\<close>, and \<open>first[0]\<close> then throws a
  \<open>TypeError\<close>; this is the only exception the three helpers can raise on a geometry that
  has the shape of the schema.
\<close>

datatype error = TypeError

subsection \<open>closeRings\<close>

text \<open>
  \<open>ensureClosed\<close> pushes a copy of the first pair when the first and the last pair differ
  in a component.  The source mutates the ring in place; the model returns the ring.
\<close>

definition ensureClosed :: "'a ring \<Rightarrow> error + 'a ring" where
  "ensureClosed ring =
     (if ring = [] then Inl TypeError
      else
        let first = ring ! 0;
            last = ring ! (length ring - 1)
        in if fst first \<noteq> fst last \<or> snd first \<noteq> snd last
           then Inr (ring @ [(fst first, snd first)])
           else Inr ring)"

text \<open>\<open>forEach\<close> over the rings of one polygon: the first ring that throws ends the loop.\<close>

fun forEach_ensureClosed :: "'a ring list \<Rightarrow> error + 'a ring list" where
  "forEach_ensureClosed [] = Inr []"
| "forEach_ensureClosed (ring # rings) =
     (case ensureClosed ring of
        Inl e \<Rightarrow> Inl e
      | Inr ring' \<Rightarrow>
          (case forEach_ensureClosed rings of
             Inl e \<Rightarrow> Inl e
           | Inr rings' \<Rightarrow> Inr (ring' # rings')))"

text \<open>\<open>forEach\<close> over the polygons of a multi-polygon.\<close>

fun forEach_poly :: "'a ring list list \<Rightarrow> error + 'a ring list list" where
  "forEach_poly [] = Inr []"
| "forEach_poly (poly # polys) =
     (case forEach_ensureClosed poly of
        Inl e \<Rightarrow> Inl e
      | Inr poly' \<Rightarrow>
          (case forEach_poly polys of
             Inl e \<Rightarrow> Inl e
           | Inr polys' \<Rightarrow> Inr (poly' # polys')))"

fun closeRings :: "'a geometry \<Rightarrow> error + 'a geometry" where
  "closeRings (Polygon coordinates) =
     (case forEach_ensureClosed coordinates of
        Inl e \<Rightarrow> Inl e
      | Inr coordinates' \<Rightarrow> Inr (Polygon coordinates'))"
| "closeRings (MultiPolygon coordinates) =
     (case forEach_poly coordinates of
        Inl e \<Rightarrow> Inl e
      | Inr coordinates' \<Rightarrow> Inr (MultiPolygon coordinates'))"
| "closeRings (Point coordinates) = Inr (Point coordinates)"

subsection \<open>simplifyRing\<close>

definition getSqSegDist ::
  "('a::{zero,one,plus,minus,times,inverse,ord}) point \<Rightarrow> 'a point \<Rightarrow> 'a point \<Rightarrow> 'a" where
  "getSqSegDist p p1 p2 =
     (let x = fst p1;
          y = snd p1;
          dx = fst p2 - x;
          dy = snd p2 - y;
          xy = (if dx \<noteq> 0 \<or> dy \<noteq> 0 then
                  let t = ((fst p - x) * dx + (snd p - y) * dy) / (dx * dx + dy * dy)
                  in if t > 1 then (fst p2, snd p2)
                     else if t > 0 then (x + dx * t, y + dy * t)
                     else (x, y)
                else (x, y));
          dx = fst p - fst xy;
          dy = snd p - snd xy
      in dx * dx + dy * dy)"

text \<open>
  One iteration of the \<open>for\<close> loop of \<open>simplifyDP\<close>, on the loop state
  \<open>(maxSqDist, index)\<close>; \<open>index\<close> is \<open>undefined\<close> (\<open>None\<close>) until a point is found.
\<close>

definition scan_step ::
  "('a::{zero,one,plus,minus,times,inverse,ord}) ring \<Rightarrow> nat \<Rightarrow> nat \<Rightarrow> nat \<Rightarrow>
     'a \<times> nat option \<Rightarrow> 'a \<times> nat option" where
  "scan_step points first last' i st =
     (let sqDist = getSqSegDist (points ! i) (points ! first) (points ! last')
      in if sqDist > fst st then (sqDist, Some i) else st)"

text \<open>The loop \<open>for (let i = first + 1; i < last; i++)\<close>, started at \<open>(sqTol, undefined)\<close>.\<close>

definition scan ::
  "('a::{zero,one,plus,minus,times,inverse,ord}) ring \<Rightarrow> nat \<Rightarrow> nat \<Rightarrow> 'a \<Rightarrow> 'a \<times> nat option" where
  "scan points first last' sqTol =
     fold (scan_step points first last') [first + 1 ..< last'] (sqTol, None)"

lemma scan_fold_index:
  "fold (scan_step points first last') is st = (m, Some j) \<Longrightarrow>
     snd st = Some j \<or> j \<in> set is"
proof (induction "is" arbitrary: st)
  case Nil
  then show ?case by simp
next
  case (Cons i "is")
  from Cons.prems have "fold (scan_step points first last') is (scan_step points first last' i st) = (m, Some j)"
    by simp
  from Cons.IH [OF this] show ?case
    by (auto simp: scan_step_def Let_def split: if_splits)
qed

lemma scan_index_range:
  assumes "scan points first last' sqTol = (m, Some j)"
  shows "first < j \<and> j < last'"
  using scan_fold_index [OF assms [unfolded scan_def]] by auto

text \<open>
  \<open>simplifyDP\<close> pushes onto the array \<open>simplified\<close>; the model takes the array and returns
  it.  The test \<open>maxSqDist > sqTol && index\<close> is kept as written: \<open>index\<close> is falsy when
  it is \<open>undefined\<close> and when it is \<open>0\<close>.  \<open>simplifyDP\<close> is local to \<open>simplifyRing\<close>, which
  calls it with \<open>first = 0\<close> and \<open>last = ring.length - 1\<close>; the loop reads \<open>points[i]\<close> for
  \<open>first < i < last\<close> only, and the recursive calls stay between \<open>first\<close> and \<open>last\<close>
  (\<open>scan_index_range\<close>), so every index read is an index of the array.
\<close>

function simplifyDP ::
  "('a::{zero,one,plus,minus,times,inverse,ord}) ring \<Rightarrow> nat \<Rightarrow> nat \<Rightarrow> 'a \<Rightarrow> 'a ring \<Rightarrow> 'a ring" where
  "simplifyDP points first last' sqTol simplified =
     (case scan points first last' sqTol of
        (maxSqDist, None) \<Rightarrow> simplified
      | (maxSqDist, Some index) \<Rightarrow>
          if maxSqDist > sqTol \<and> index \<noteq> 0 then
            let s1 = (if index - first > 1
                      then simplifyDP points first index sqTol simplified
                      else simplified);
                s2 = s1 @ [points ! index]
            in if last' - index > 1 then simplifyDP points index last' sqTol s2 else s2
          else simplified)"
  by pat_completeness auto
termination
  by (relation "measure (\<lambda>(points, first, last', sqTol, simplified). last' - first)")
     (auto dest!: scan_index_range [OF sym])

declare simplifyDP.simps [simp del]

text \<open>
  The constant \<open>ring\<close> of \<open>simplifyRing\<close>: the points themselves when the first and the last
  pair agree, and otherwise a new array with the first pair appended.
\<close>

definition ensureRingClosed :: "'a ring \<Rightarrow> 'a ring" where
  "ensureRingClosed points =
     (let first = points ! 0;
          last = points ! (length points - 1)
      in if fst first = fst last \<and> snd first = snd last then points else points @ [first])"

text \<open>
  The array \<open>simplified\<close> of \<open>simplifyRing\<close> as it is when its length is tested: the first
  point, what \<open>simplifyDP\<close> pushes, and the last point.
\<close>

definition simplifiedPoints ::
  "('a::{zero,one,plus,minus,times,inverse,ord}) ring \<Rightarrow> 'a \<Rightarrow> 'a ring" where
  "simplifiedPoints ring sqTol =
     (let simplified = [ring ! 0];
          simplified = simplifyDP ring 0 (length ring - 1) sqTol simplified
      in simplified @ [ring ! (length ring - 1)])"

text \<open>
  \<open>simplifyRing\<close>.  The argument is an array by the schema, so the test \<open>Array.isArray\<close>
  holds; an array of more than four pairs has a first and a last element, so no access
  is out of range.
\<close>

definition simplifyRing ::
  "('a::{zero,one,plus,minus,times,inverse,ord}) ring \<Rightarrow> 'a \<Rightarrow> 'a ring" where
  "simplifyRing points tolerance =
     (if length points \<le> 4 then points
      else
        let sqTol = tolerance * tolerance;
            ring = ensureRingClosed points;
            simplified = simplifiedPoints ring sqTol
        in if length simplified < 4 then ring else simplified)"

subsection \<open>simplifyGeometry\<close>

fun simplifyGeometry ::
  "('a::{zero,one,plus,minus,times,inverse,ord}) geometry \<Rightarrow> 'a \<Rightarrow> 'a geometry" where
  "simplifyGeometry (Polygon coordinates) toleranceDeg =
     Polygon (map (\<lambda>ring. simplifyRing ring toleranceDeg) coordinates)"
| "simplifyGeometry (MultiPolygon coordinates) toleranceDeg =
     MultiPolygon (map (\<lambda>poly. map (\<lambda>ring. simplifyRing ring toleranceDeg) poly) coordinates)"
| "simplifyGeometry (Point coordinates) toleranceDeg = Point coordinates"

subsection \<open>coordsOutOfBounds\<close>

text \<open>
  The two \<open>typeof\<close> tests of \<open>ok\<close> hold for every pair of the schema, so \<open>ok\<close> is the four
  comparisons.
\<close>

definition ok :: "('a::{numeral,uminus,ord}) \<Rightarrow> 'a \<Rightarrow> bool" where
  "ok lng lat \<longleftrightarrow> lng \<ge> - 180 \<and> lng \<le> 180 \<and> lat \<ge> - 90 \<and> lat \<le> 90"

fun coordsOutOfBounds :: "('a::{numeral,uminus,ord}) geometry \<Rightarrow> bool" where
  "coordsOutOfBounds (Point coordinates) =
     (case coordinates of (lng, lat) \<Rightarrow> \<not> ok lng lat)"
| "coordsOutOfBounds (Polygon coordinates) =
     list_ex (\<lambda>ring. list_ex (\<lambda>(lng, lat). \<not> ok lng lat) ring) coordinates"
| "coordsOutOfBounds (MultiPolygon coordinates) =
     list_ex (\<lambda>poly. list_ex (\<lambda>ring. list_ex (\<lambda>(lng, lat). \<not> ok lng lat) ring) poly) coordinates"

text \<open>
  The route handler rejects the geometry when \<open>coordsOutOfBounds\<close> holds; the bounds
  check passes when it does not.
\<close>

definition validateBounds :: "('a::{numeral,uminus,ord}) geometry \<Rightarrow> bool" where
  "validateBounds geometry \<longleftrightarrow> \<not> coordsOutOfBounds geometry"

text \<open>
  The three steps of \<open>POST /aoi\<close> on the parsed geometry: \<open>closeRings\<close>, \<open>simplifyGeometry\<close>
  with its default tolerance \<open>0.0001\<close>, and the bounds check.  The result is the status
  the handler answers with when it stops (\<open>500\<close> from the \<open>catch\<close> block, \<open>400\<close> for
  coordinates out of bounds), or the geometry that goes on to be stored.
\<close>

definition normalizeGeometry ::
  "('a::{zero,one,plus,minus,times,inverse,ord,numeral,uminus}) geometry \<Rightarrow> nat + 'a geometry" where
  "normalizeGeometry geometry =
     (case closeRings geometry of
        Inl e \<Rightarrow> Inl 500
      | Inr geometry' \<Rightarrow>
          let simplified = simplifyGeometry geometry' (1 / 10000)
          in if coordsOutOfBounds simplified then Inl 400 else Inr simplified)"

text \<open>All rings of a geometry, and all coordinate pairs of a geometry.\<close>

fun rings_of :: "'a geometry \<Rightarrow> 'a ring list" where
  "rings_of (Point coordinates) = []"
| "rings_of (Polygon coordinates) = coordinates"
| "rings_of (MultiPolygon coordinates) = concat coordinates"

fun pairs_of :: "'a geometry \<Rightarrow> 'a point list" where
  "pairs_of (Point coordinates) = [coordinates]"
| "pairs_of (Polygon coordinates) = concat coordinates"
| "pairs_of (MultiPolygon coordinates) = concat (concat coordinates)"

text \<open>A geometry with a function applied to each of its rings.\<close>

fun map_rings :: "('a ring \<Rightarrow> 'a ring) \<Rightarrow> 'a geometry \<Rightarrow> 'a geometry" where
  "map_rings f (Point coordinates) = Point coordinates"
| "map_rings f (Polygon coordinates) = Polygon (map f coordinates)"
| "map_rings f (MultiPolygon coordinates) = MultiPolygon (map (map f) coordinates)"

text \<open>A ring is closed when it has a first pair and its last pair is the same pair.\<close>

definition ring_closed :: "'a ring \<Rightarrow> bool" where
  "ring_closed ring \<longleftrightarrow> ring \<noteq> [] \<and> ring ! 0 = ring ! (length ring - 1)"


section \<open>WMS feature-info cache (server/index.js)\<close>

subsection \<open>The cache key\<close>

text \<open>
  The four numeric query fields are non-negative integers (\<open>z.coerce.number().int().min(0)\<close>,
  \<open>min(1)\<close> for the two sizes).  A template literal renders such a number in decimal,
  without leading zeros, as long as it is below \<open>10^21\<close>, and every integer up to
  \<open>Number.MAX_SAFE_INTEGER\<close> is a number of JavaScript.  \<open>number_toString\<close> is the decimal
  rendering; it is the rendering of the source on the safe integers, and the facts below
  that depend on how a number is rendered are stated for safe integers only.
\<close>

definition MAX_SAFE_INTEGER :: nat where
  "MAX_SAFE_INTEGER = 9007199254740991"

definition digit_char :: "nat \<Rightarrow> char" where
  "digit_char d = ''0123456789'' ! d"

fun number_toString :: "nat \<Rightarrow> string" where
  "number_toString n =
     (if n < 10 then [digit_char n]
      else number_toString (n div 10) @ [digit_char (n mod 10)])"

declare number_toString.simps [simp del]

text \<open>The template literal \<open>`${layers}-${x}-${y}-${bbox}-${width}-${height}`\<close>.\<close>

definition cacheKey :: "string \<Rightarrow> nat \<Rightarrow> nat \<Rightarrow> string \<Rightarrow> nat \<Rightarrow> nat \<Rightarrow> string" where
  "cacheKey layers x y bbox width height =
     layers @ ''-'' @ number_toString x @ ''-'' @ number_toString y @ ''-'' @ bbox
       @ ''-'' @ number_toString width @ ''-'' @ number_toString height"

subsection \<open>The map\<close>

text \<open>
  An entry of \<open>wmsCache\<close> is the object \<open>{ data, timestamp }\<close>; \<open>timestamp\<close> is a value of
  \<open>Date.now()\<close>, an integer number of milliseconds.  A JavaScript \<open>Map\<close> keeps its entries
  in insertion order, and \<open>cleanupCache\<close> depends on that order (the array of entries
  and the stable sort), so the map is a list of key--value pairs in insertion order with
  no key twice.
\<close>

record 'v cache_entry =
  data :: 'v
  timestamp :: int

type_synonym 'v wms_cache = "(string \<times> 'v cache_entry) list"

definition CACHE_TTL :: int where
  "CACHE_TTL = 5 * 60 * 1000"

definition MAX_CACHE_SIZE :: nat where
  "MAX_CACHE_SIZE = 1000"

text \<open>\<open>Map.prototype.get\<close>: \<open>undefined\<close> (\<open>None\<close>) for a key that is not in the map.\<close>

definition map_get :: "'k \<Rightarrow> ('k \<times> 'e) list \<Rightarrow> 'e option" where
  "map_get key m = map_of m key"

text \<open>
  \<open>Map.prototype.set\<close>: a key of the map keeps its place and takes the new value; a new key
  goes to the end.
\<close>

fun map_set :: "'k \<Rightarrow> 'e \<Rightarrow> ('k \<times> 'e) list \<Rightarrow> ('k \<times> 'e) list" where
  "map_set key v [] = [(key, v)]"
| "map_set key v ((k, w) # m) = (if k = key then (key, v) # m else (k, w) # map_set key v m)"

text \<open>\<open>Map.prototype.delete\<close>.\<close>

definition map_delete :: "'k \<Rightarrow> ('k \<times> 'e) list \<Rightarrow> ('k \<times> 'e) list" where
  "map_delete key m = filter (\<lambda>(k, w). k \<noteq> key) m"

text \<open>The invariant of a \<open>Map\<close>: one entry per key.\<close>

definition is_map :: "('k \<times> 'e) list \<Rightarrow> bool" where
  "is_map m \<longleftrightarrow> distinct (map fst m)"

subsection \<open>Reading and writing the cache\<close>

text \<open>
  The cache probe of the handler, at time \<open>now\<close>:
  \<open>const cached = wmsCache.get(cacheKey); if (cached && Date.now() - cached.timestamp < CACHE_TTL)\<close>
  answers with \<open>cached.data\<close>; a stored entry is an object and so truthy.
\<close>

definition cache_get :: "int \<Rightarrow> string \<Rightarrow> 'v wms_cache \<Rightarrow> 'v option" where
  "cache_get now key cache =
     (case map_get key cache of
        None \<Rightarrow> None
      | Some cached \<Rightarrow> if now - timestamp cached < CACHE_TTL then Some (data cached) else None)"

text \<open>The store of the handler, at time \<open>now\<close>:
  \<open>wmsCache.set(cacheKey, { data: data, timestamp: Date.now() })\<close>.\<close>

definition cache_put :: "int \<Rightarrow> string \<Rightarrow> 'v \<Rightarrow> 'v wms_cache \<Rightarrow> 'v wms_cache" where
  "cache_put now key d cache = map_set key \<lparr>data = d, timestamp = now\<rparr> cache"

subsection \<open>cleanupCache\<close>

text \<open>
  \<open>entries\<close> is the array of the entries taken before anything is deleted; both loops run
  over it (the second over a filtered and sorted copy) and delete from the map.
  \<open>Array.prototype.sort\<close> is stable, as is \<open>sort_key\<close>.
\<close>

definition cleanupCache :: "int \<Rightarrow> 'v wms_cache \<Rightarrow> 'v wms_cache" where
  "cleanupCache now wmsCache =
     (let entries = wmsCache;
          wmsCache = fold (\<lambda>(key, v) m. if now - timestamp v > CACHE_TTL then map_delete key m else m)
                       entries wmsCache
      in if length wmsCache > MAX_CACHE_SIZE then
           let sortedEntries = sort_key (\<lambda>(key, v). timestamp v)
                                 (filter (\<lambda>(key, v). now - timestamp v \<le> CACHE_TTL) entries);
               toRemove = take (length wmsCache - MAX_CACHE_SIZE) sortedEntries
           in fold (\<lambda>(key, v) m. map_delete key m) toRemove wmsCache
         else wmsCache)"

text \<open>The entries that the first loop of \<open>cleanupCache\<close> at time \<open>now\<close> does not delete.\<close>

definition kept_entries :: "int \<Rightarrow> 'v wms_cache \<Rightarrow> 'v wms_cache" where
  "kept_entries now wmsCache = filter (\<lambda>(key, v). now - timestamp v \<le> CACHE_TTL) wmsCache"

subsection \<open>The handler of \<open>GET /wms/feature-info\<close>\<close>

text \<open>
  What the upstream request can do: \<open>fetch\<close> rejects, the response is not OK (the handler
  throws), \<open>response.json()\<close> rejects, or the response is OK and parses to \<open>data\<close>.
\<close>

datatype 'v upstream = FetchRejects | ResponseNotOk | JsonRejects | ResponseOk 'v

text \<open>What the handler answers: \<open>res.json(data)\<close>, or an error with a status code.\<close>

datatype 'v reply = Json 'v | ErrorStatus nat

text \<open>The parsed query, \<open>{ x, y, bbox, width, height, layers }\<close>.\<close>

record feature_info =
  q_x :: nat
  q_y :: nat
  q_bbox :: string
  q_width :: nat
  q_height :: nat
  q_layers :: string

text \<open>
  The handler, as a function of the query as parsed by \<open>featureInfoSchema\<close> (\<open>None\<close> when
  \<open>parse\<close> throws a \<open>ZodError\<close>), of what the upstream server does with that query, of the
  two readings of the clock (at the probe and at the store) and of the cache.  It returns
  the answer and the cache.  Every exception ends in the \<open>catch\<close> block, which answers
  \<open>400\<close> for a \<open>ZodError\<close> and \<open>500\<close> otherwise and does not touch the cache.
\<close>

definition query_key :: "feature_info \<Rightarrow> string" where
  "query_key q = cacheKey (q_layers q) (q_x q) (q_y q) (q_bbox q) (q_width q) (q_height q)"

definition feature_info_handler ::
  "(feature_info \<Rightarrow> 'v upstream) \<Rightarrow> int \<Rightarrow> int \<Rightarrow> feature_info option \<Rightarrow> 'v wms_cache
     \<Rightarrow> 'v reply \<times> 'v wms_cache" where
  "feature_info_handler fetch now1 now2 query wmsCache =
     (case query of
        None \<Rightarrow> (ErrorStatus 400, wmsCache)
      | Some q \<Rightarrow>
          let key = query_key q
          in case cache_get now1 key wmsCache of
               Some d \<Rightarrow> (Json d, wmsCache)
             | None \<Rightarrow>
                 (case fetch q of
                    ResponseOk d \<Rightarrow> (Json d, cache_put now2 key d wmsCache)
                  | _ \<Rightarrow> (ErrorStatus 500, wmsCache)))"

text \<open>
  A run of the server: the queries of a list are served one after the other, all at the
  same reading \<open>now\<close> of the clock, and the cache is handed from each request to the next.
\<close>

fun serve_all ::
  "(feature_info \<Rightarrow> 'v upstream) \<Rightarrow> int \<Rightarrow> feature_info list \<Rightarrow> 'v wms_cache \<Rightarrow> 'v wms_cache" where
  "serve_all fetch now [] wmsCache = wmsCache"
| "serve_all fetch now (q # qs) wmsCache =
     serve_all fetch now qs (snd (feature_info_handler fetch now now (Some q) wmsCache))"

text \<open>The entries of the cache that a probe at time \<open>now\<close> would answer with.\<close>

definition live_entries :: "int \<Rightarrow> 'v wms_cache \<Rightarrow> 'v wms_cache" where
  "live_entries now wmsCache = filter (\<lambda>(key, v). now - timestamp v < CACHE_TTL) wmsCache"

text \<open>Sample data: queries that differ in \<open>x\<close> only, and an upstream server that always answers.\<close>

definition sample_query :: "nat \<Rightarrow> feature_info" where
  "sample_query i =
     \<lparr>q_x = i, q_y = 0, q_bbox = ''0,0,1,1'', q_width = 256, q_height = 256, q_layers = ''roads''\<rparr>"

definition sample_queries :: "nat \<Rightarrow> feature_info list" where
  "sample_queries n = map sample_query [0 ..< n]"

definition always_ok :: "feature_info \<Rightarrow> unit upstream" where
  "always_ok q = ResponseOk ()"

definition never_ok :: "feature_info \<Rightarrow> unit upstream" where
  "never_ok q = ResponseNotOk"

text \<open>An upstream server that answers every query with the same data.\<close>

definition answers :: "'v \<Rightarrow> feature_info \<Rightarrow> 'v upstream" where
  "answers d q = ResponseOk d"


section \<open>Properties of the geometry normaliser\<close>

subsection \<open>What \<open>simplifyDP\<close> and \<open>simplifyRing\<close> return\<close>

text \<open>\<open>simplifyDP\<close> only pushes: the array it is given is a prefix of the array it leaves.\<close>

lemma simplifyDP_append:
  "\<exists>ys. simplifyDP points first last' sqTol simplified = simplified @ ys"
proof (induction points first last' sqTol simplified rule: simplifyDP.induct)
  case (1 points first last' sqTol simplified)
  obtain maxSqDist idx where sc: "scan points first last' sqTol = (maxSqDist, idx)"
    by (cases "scan points first last' sqTol")
  show ?case
  proof (cases idx)
    case None
    with sc show ?thesis by (subst simplifyDP.simps) simp
  next
    case (Some index)
    show ?thesis
    proof (cases "maxSqDist > sqTol \<and> index \<noteq> 0")
      case False
      with sc Some show ?thesis by (subst simplifyDP.simps) auto
    next
      case True
      define s1 where "s1 = (if index - first > 1
                      then simplifyDP points first index sqTol simplified
                      else simplified)"
      define s2 where "s2 = s1 @ [points ! index]"
      have a: "\<exists>ys. s1 = simplified @ ys"
        using "1.IH"(1) [OF sc [symmetric] Some True] by (auto simp: s1_def)
      have b: "\<exists>ys. (if last' - index > 1 then simplifyDP points index last' sqTol s2 else s2) = s2 @ ys"
        using "1.IH"(2) [OF sc [symmetric] Some True s1_def s2_def] by auto
      have "simplifyDP points first last' sqTol simplified =
             (if last' - index > 1 then simplifyDP points index last' sqTol s2 else s2)"
        using sc Some True by (subst simplifyDP.simps) (simp add: s1_def s2_def Let_def)
      with a b show ?thesis by (auto simp: s2_def)
    qed
  qed
qed


lemma simplifiedPoints_shape:
  "\<exists>ys. simplifiedPoints ring sqTol = ring ! 0 # ys @ [ring ! (length ring - 1)]"
proof -
  obtain ys where "simplifyDP ring 0 (length ring - 1) sqTol [ring ! 0] = [ring ! 0] @ ys"
    using simplifyDP_append by blast
  then show ?thesis by (simp add: simplifiedPoints_def)
qed

lemma ensureRingClosed_cases:
  "ensureRingClosed points =
     (if points ! 0 = points ! (length points - 1) then points else points @ [points ! 0])"
  by (simp add: ensureRingClosed_def Let_def prod_eq_iff)

lemma hd_ensureRingClosed: "points \<noteq> [] \<Longrightarrow> hd (ensureRingClosed points) = hd points"
  by (simp add: ensureRingClosed_cases)

lemma last_ensureRingClosed:
  "points \<noteq> [] \<Longrightarrow> last (ensureRingClosed points) = hd points"
  by (simp add: ensureRingClosed_cases hd_conv_nth last_conv_nth)

lemma ensureRingClosed_nth0:
  "points \<noteq> [] \<Longrightarrow> ensureRingClosed points ! 0 = points ! 0"
  by (simp add: ensureRingClosed_cases nth_append)

lemma ensureRingClosed_nth_last:
  "points \<noteq> [] \<Longrightarrow>
     ensureRingClosed points ! (length (ensureRingClosed points) - 1) = points ! 0"
  by (auto simp: ensureRingClosed_cases nth_append)

lemma length_ensureRingClosed: "length points \<le> length (ensureRingClosed points)"
  by (simp add: ensureRingClosed_cases)

lemma ring_closed_ensureRingClosed: "points \<noteq> [] \<Longrightarrow> ring_closed (ensureRingClosed points)"
  by (auto simp: ring_closed_def ensureRingClosed_cases nth_append)

lemma ensureRingClosed_idem: "ring_closed points \<Longrightarrow> ensureRingClosed points = points"
  by (simp add: ring_closed_def ensureRingClosed_cases)

lemma simplifyRing_cases:
  "simplifyRing points tolerance = points \<and> length points \<le> 4
   \<or> simplifyRing points tolerance = ensureRingClosed points \<and> 4 < length points
   \<or> simplifyRing points tolerance = simplifiedPoints (ensureRingClosed points) (tolerance * tolerance)
       \<and> 4 < length points
       \<and> 4 \<le> length (simplifiedPoints (ensureRingClosed points) (tolerance * tolerance))"
  by (auto simp: simplifyRing_def Let_def)

lemma simplifyRing_hd:
  assumes "points \<noteq> []"
  shows "hd (simplifyRing points tolerance) = hd points"
proof -
  obtain ys where ys: "simplifiedPoints (ensureRingClosed points) (tolerance * tolerance)
      = ensureRingClosed points ! 0 # ys @ [ensureRingClosed points ! (length (ensureRingClosed points) - 1)]"
    using simplifiedPoints_shape by blast
  have "hd (simplifiedPoints (ensureRingClosed points) (tolerance * tolerance))
          = ensureRingClosed points ! 0"
    by (simp add: ys)
  also have "\<dots> = hd points"
    using ensureRingClosed_nth0 [OF assms] assms by (simp add: hd_conv_nth)
  finally have "hd (simplifiedPoints (ensureRingClosed points) (tolerance * tolerance)) = hd points" .
  with assms simplifyRing_cases [of points tolerance] show ?thesis
    by (auto simp: hd_ensureRingClosed)
qed

lemma simplifyRing_last_long:
  assumes "4 < length points"
  shows "last (simplifyRing points tolerance) = hd points"
proof -
  from assms have ne: "points \<noteq> []" by auto
  obtain ys where ys: "simplifiedPoints (ensureRingClosed points) (tolerance * tolerance)
      = ensureRingClosed points ! 0 # ys @ [ensureRingClosed points ! (length (ensureRingClosed points) - 1)]"
    using simplifiedPoints_shape by blast
  have "last (simplifiedPoints (ensureRingClosed points) (tolerance * tolerance))
          = ensureRingClosed points ! (length (ensureRingClosed points) - 1)"
    by (simp add: ys)
  also have "\<dots> = hd points"
    using ensureRingClosed_nth_last [OF ne] ne by (simp add: hd_conv_nth)
  finally have "last (simplifiedPoints (ensureRingClosed points) (tolerance * tolerance)) = hd points" .
  with assms ne simplifyRing_cases [of points tolerance] show ?thesis
    by (auto simp: last_ensureRingClosed)
qed

lemma simplifyRing_length:
  assumes "4 \<le> length points"
  shows "4 \<le> length (simplifyRing points tolerance)"
  using assms simplifyRing_cases [of points tolerance] length_ensureRingClosed [of points]
  by auto

lemma simplifyRing_closed:
  assumes "ring_closed points"
  shows "ring_closed (simplifyRing points tolerance)"
proof (cases "4 < length points")
  case False
  with assms show ?thesis by (simp add: simplifyRing_def)
next
  case True
  then have ne: "points \<noteq> []" by auto
  have len: "4 \<le> length (simplifyRing points tolerance)"
    using True by (intro simplifyRing_length) simp
  then have ne': "simplifyRing points tolerance \<noteq> []" by auto
  have "hd (simplifyRing points tolerance) = last (simplifyRing points tolerance)"
    using simplifyRing_hd [OF ne] simplifyRing_last_long [OF True] by simp
  with ne' show ?thesis
    by (simp add: ring_closed_def hd_conv_nth last_conv_nth)
qed


subsection \<open>What \<open>closeRings\<close> and \<open>simplifyGeometry\<close> return\<close>

lemma ensureClosed_eq: "ring \<noteq> [] \<Longrightarrow> ensureClosed ring = Inr (ensureRingClosed ring)"
  by (simp add: ensureClosed_def ensureRingClosed_def Let_def)

lemma forEach_ensureClosed_eq:
  "list_all (\<lambda>ring. ring \<noteq> []) rings \<Longrightarrow>
     forEach_ensureClosed rings = Inr (map ensureRingClosed rings)"
  by (induction rings) (simp_all add: ensureClosed_eq)

lemma forEach_poly_eq:
  "list_all (list_all (\<lambda>ring. ring \<noteq> [])) polys \<Longrightarrow>
     forEach_poly polys = Inr (map (map ensureRingClosed) polys)"
  by (induction polys) (simp_all add: forEach_ensureClosed_eq)

lemma closeRings_eq:
  assumes "list_all (\<lambda>ring. ring \<noteq> []) (rings_of geometry)"
  shows "closeRings geometry = Inr (map_rings ensureRingClosed geometry)"
proof (cases geometry)
  case (Point p)
  then show ?thesis by simp
next
  case (Polygon rings)
  with assms show ?thesis by (simp add: forEach_ensureClosed_eq)
next
  case (MultiPolygon polys)
  with assms have "list_all (list_all (\<lambda>ring. ring \<noteq> [])) polys"
    by (auto simp: list_all_iff)
  with MultiPolygon show ?thesis by (simp add: forEach_poly_eq)
qed

lemma simplifyGeometry_eq:
  "simplifyGeometry geometry tolerance = map_rings (\<lambda>ring. simplifyRing ring tolerance) geometry"
  by (cases geometry) simp_all

lemma rings_of_map_rings: "rings_of (map_rings f geometry) = map f (rings_of geometry)"
  by (cases geometry) (simp_all add: map_concat)

subsection \<open>Claims\<close>

text \<open>
  C5.  A ring is a closed sequence of coordinate pairs, and \<open>simplifyRing\<close> is only called
  on the rings that \<open>closeRings\<close> hands over, which are closed.  For every ring \<open>R\<close> with at
  least 4 points and every tolerance, the ring returned by \<open>simplifyRing\<close> is not empty and
  has the same first point and the same last point as \<open>R\<close>.
\<close>

theorem simplifyRing_anchors:
  assumes "4 \<le> length R" and "ring_closed R"
  shows "simplifyRing R tolerance \<noteq> []
       \<and> hd (simplifyRing R tolerance) = hd R
       \<and> last (simplifyRing R tolerance) = last R"
proof -
  from assms(1) have ne: "R \<noteq> []" by auto
  from assms(2) have closed: "hd R = last R"
    by (simp add: ring_closed_def hd_conv_nth last_conv_nth)
  from simplifyRing_length [OF assms(1), of tolerance] have "simplifyRing R tolerance \<noteq> []" by auto
  moreover have "hd (simplifyRing R tolerance) = hd R" using ne by (rule simplifyRing_hd)
  moreover have "last (simplifyRing R tolerance) = last R"
  proof (cases "length R = 4")
    case True
    then show ?thesis by (simp add: simplifyRing_def)
  next
    case False
    with assms(1) have "4 < length R" by simp
    from simplifyRing_last_long [OF this, of tolerance] closed show ?thesis by simp
  qed
  ultimately show ?thesis by simp
qed

theorem simplifyRing_anchors_witness:
  "4 \<le> length [(0::real, 0::real), (1, 0), (1, 1), (0, 1), (0, 1 / 2), (0, 0)]
   \<and> ring_closed [(0::real, 0::real), (1, 0), (1, 1), (0, 1), (0, 1 / 2), (0, 0)]
   \<and> hd (simplifyRing [(0::real, 0::real), (1, 0), (1, 1), (0, 1), (0, 1 / 2), (0, 0)] 0) = (0, 0)
   \<and> last (simplifyRing [(0::real, 0::real), (1, 0), (1, 1), (0, 1), (0, 1 / 2), (0, 0)] 0) = (0, 0)"
  using simplifyRing_anchors [of "[(0::real, 0::real), (1, 0), (1, 1), (0, 1), (0, 1 / 2), (0, 0)]" 0]
  by (simp add: ring_closed_def)

text \<open>
  C6.  For every ring \<open>R\<close> with at least 4 points and every tolerance, \<open>simplifyRing\<close>
  returns at least 4 points; a ring with at most 4 points is returned as it is; and when
  \<open>R\<close> has more than 4 points and the reduction leaves fewer than 4 points, the ring as it
  was before the reduction is returned.  That ring is \<open>ensureRingClosed R\<close>, the ring after
  the re-closing step of the algorithm, and it is \<open>R\<close> itself for every closed \<open>R\<close>, so for
  every ring that \<open>closeRings\<close> hands over.
\<close>

theorem simplifyRing_floor:
  assumes "4 \<le> length R"
  shows "4 \<le> length (simplifyRing R tolerance)
       \<and> (length R \<le> 4 \<longrightarrow> simplifyRing R tolerance = R)
       \<and> (4 < length R
            \<and> length (simplifiedPoints (ensureRingClosed R) (tolerance * tolerance)) < 4
          \<longrightarrow> simplifyRing R tolerance = ensureRingClosed R)
       \<and> (ring_closed R \<longrightarrow> ensureRingClosed R = R)
       \<and> (ring_closed R \<and> 4 < length R
            \<and> length (simplifiedPoints R (tolerance * tolerance)) < 4
          \<longrightarrow> simplifyRing R tolerance = R)
       \<and> (hd R = last R \<longrightarrow> ensureRingClosed R = R)
       \<and> (hd R \<noteq> last R \<longrightarrow> ensureRingClosed R = R @ [hd R])"
proof -
  from assms have ne: "R \<noteq> []" by auto
  have "4 \<le> length (simplifyRing R tolerance)" using assms by (rule simplifyRing_length)
  moreover have "length R \<le> 4 \<longrightarrow> simplifyRing R tolerance = R"
    by (simp add: simplifyRing_def)
  moreover have "4 < length R
            \<and> length (simplifiedPoints (ensureRingClosed R) (tolerance * tolerance)) < 4
          \<longrightarrow> simplifyRing R tolerance = ensureRingClosed R"
    by (simp add: simplifyRing_def Let_def)
  moreover have "ring_closed R \<longrightarrow> ensureRingClosed R = R"
    by (simp add: ensureRingClosed_idem)
  moreover have "ring_closed R \<and> 4 < length R
            \<and> length (simplifiedPoints R (tolerance * tolerance)) < 4
          \<longrightarrow> simplifyRing R tolerance = R"
    by (simp add: simplifyRing_def Let_def ensureRingClosed_idem)
  moreover have "hd R = last R \<longrightarrow> ensureRingClosed R = R"
    using ne by (simp add: ensureRingClosed_cases hd_conv_nth last_conv_nth)
  moreover have "hd R \<noteq> last R \<longrightarrow> ensureRingClosed R = R @ [hd R]"
    using ne by (simp add: ensureRingClosed_cases hd_conv_nth last_conv_nth)
  ultimately show ?thesis by simp
qed

lemma collinear_closed_reduction:
  "length (simplifiedPoints [(0::real, 0::real), (1, 0), (2, 0), (3, 0), (4, 0), (0, 0)] (0 * 0)) < 4"
  by code_simp

theorem simplifyRing_floor_witness:
  "4 \<le> length [(0::real, 0::real), (1, 0), (2, 0), (3, 0), (4, 0), (0, 0)]
   \<and> ring_closed [(0::real, 0::real), (1, 0), (2, 0), (3, 0), (4, 0), (0, 0)]
   \<and> length (simplifiedPoints [(0::real, 0::real), (1, 0), (2, 0), (3, 0), (4, 0), (0, 0)] (0 * 0)) < 4
   \<and> 4 \<le> length (simplifyRing [(0::real, 0::real), (1, 0), (2, 0), (3, 0), (4, 0), (0, 0)] 0)
   \<and> simplifyRing [(0::real, 0::real), (1, 0), (2, 0), (3, 0), (4, 0), (0, 0)] 0
       = [(0, 0), (1, 0), (2, 0), (3, 0), (4, 0), (0, 0)]
   \<and> simplifyRing [(0::real, 0::real), (1, 0), (1, 1), (0, 0)] 0 = [(0, 0), (1, 0), (1, 1), (0, 0)]"
proof -
  have closed: "ring_closed [(0::real, 0::real), (1, 0), (2, 0), (3, 0), (4, 0), (0, 0)]"
    by (simp add: ring_closed_def)
  from simplifyRing_floor [of "[(0::real, 0::real), (1, 0), (2, 0), (3, 0), (4, 0), (0, 0)]" 0]
    simplifyRing_floor [of "[(0::real, 0::real), (1, 0), (1, 1), (0, 0)]" 0]
    collinear_closed_reduction closed
  show ?thesis by simp
qed

text \<open>
  C7.  For every geometry whose rings each have at least 4 points, \<open>closeRings\<close> succeeds
  and closes each ring (a copy of the first pair is appended to a ring whose first and
  last pair differ, and the other rings are left as they are), and after \<open>simplifyGeometry\<close>,
  at any tolerance, every ring is closed: its first and last pair are the same.
\<close>

theorem normalized_rings_closed:
  assumes "list_all (\<lambda>ring. 4 \<le> length ring) (rings_of geometry)"
  shows "closeRings geometry = Inr (map_rings ensureRingClosed geometry)
       \<and> list_all ring_closed
            (rings_of (simplifyGeometry (map_rings ensureRingClosed geometry) tolerance))"
proof -
  from assms have ne: "list_all (\<lambda>ring. ring \<noteq> []) (rings_of geometry)"
    by (auto simp: list_all_iff)
  then have "closeRings geometry = Inr (map_rings ensureRingClosed geometry)"
    by (rule closeRings_eq)
  moreover have "list_all ring_closed
            (rings_of (simplifyGeometry (map_rings ensureRingClosed geometry) tolerance))"
    using ne
    by (auto simp: simplifyGeometry_eq rings_of_map_rings list_all_iff
          intro!: simplifyRing_closed ring_closed_ensureRingClosed)
  ultimately show ?thesis by simp
qed

theorem normalized_rings_closed_witness:
  "list_all (\<lambda>ring. 4 \<le> length ring) (rings_of (Polygon [[(0::real, 0::real), (1, 0), (1, 1), (0, 1)]]))
   \<and> closeRings (Polygon [[(0::real, 0::real), (1, 0), (1, 1), (0, 1)]])
       = Inr (Polygon [[(0, 0), (1, 0), (1, 1), (0, 1), (0, 0)]])
   \<and> list_all ring_closed
        (rings_of (simplifyGeometry (Polygon [[(0::real, 0::real), (1, 0), (1, 1), (0, 1), (0, 0)]]) 0))"
  using normalized_rings_closed [of "Polygon [[(0::real, 0::real), (1, 0), (1, 1), (0, 1)]]" 0]
  by (simp add: ensureClosed_def Let_def)

text \<open>
  C9.  The bounds check passes exactly when every coordinate pair of the geometry (the
  pair of a point, every pair of every ring of a polygon, every pair of every ring of every
  polygon of a multi-polygon) has \<open>-180 \<le> lng \<le> 180\<close> and \<open>-90 \<le> lat \<le> 90\<close>.
  \<open>coordsOutOfBounds\<close> only reads its argument and returns a truth value, so there is
  no geometry after the call other than the one before it.  A polygon that contains the
  pair \<open>(200, 10)\<close> fails the check, and the closed unit square passes it.
\<close>

theorem validateBounds_iff:
  "(validateBounds geometry \<longleftrightarrow>
      (\<forall>(lng, lat) \<in> set (pairs_of geometry). - 180 \<le> lng \<and> lng \<le> 180 \<and> - 90 \<le> lat \<and> lat \<le> 90))
   \<and> ((200 :: real, 10 :: real) \<in> set (concat rings) \<longrightarrow> \<not> validateBounds (Polygon rings))
   \<and> validateBounds (Polygon [[(0::real, 0::real), (1, 0), (1, 1), (0, 1), (0, 0)]])"
proof -
  have 1: "validateBounds g \<longleftrightarrow>
      (\<forall>(lng, lat) \<in> set (pairs_of g). - 180 \<le> lng \<and> lng \<le> 180 \<and> - 90 \<le> lat \<and> lat \<le> 90)"
    for g :: "('b :: {numeral,uminus,ord}) geometry"
  proof -
    have "coordsOutOfBounds g \<longleftrightarrow> (\<exists>(lng, lat) \<in> set (pairs_of g). \<not> ok lng lat)"
    proof (cases g)
      case (Point p)
      then show ?thesis by (simp split: prod.splits)
    next
      case (Polygon rs)
      then show ?thesis by (simp add: list_ex_iff)
    next
      case (MultiPolygon ps)
      then show ?thesis by (simp add: list_ex_iff)
    qed
    then show ?thesis by (auto simp: validateBounds_def ok_def)
  qed
  have 2: "(200 :: real, 10 :: real) \<in> set (concat rings) \<longrightarrow> \<not> validateBounds (Polygon rings)"
    unfolding 1 by force
  have 3: "validateBounds (Polygon [[(0::real, 0::real), (1, 0), (1, 1), (0, 1), (0, 0)]])"
    by (simp add: validateBounds_def ok_def)
  from 1 [of geometry] 2 3 show ?thesis by simp
qed

theorem validateBounds_iff_witness:
  "(200 :: real, 10 :: real) \<in> set (concat [[(0, 0), (200, 10), (1, 1), (0, 0)]])
   \<and> \<not> validateBounds (Polygon [[(0 :: real, 0 :: real), (200, 10), (1, 1), (0, 0)]])
   \<and> validateBounds (MultiPolygon [[[(0 :: real, 0 :: real), (180, 90), (- 180, - 90), (0, 0)]]])"
  using validateBounds_iff [of "MultiPolygon [[[(0 :: real, 0 :: real), (180, 90), (- 180, - 90), (0, 0)]]]"
      "[[(0, 0), (200, 10), (1, 1), (0, 0)]]"]
  by simp

text \<open>
  C10.  On a point, \<open>closeRings\<close> and \<open>simplifyGeometry\<close> return the geometry as it is, type
  and coordinates; the three steps of the handler together answer \<open>400\<close> when the point is
  out of bounds and hand on the same point otherwise.
\<close>

theorem point_unchanged:
  "closeRings (Point p) = Inr (Point p)
   \<and> simplifyGeometry (Point p) tolerance = Point p
   \<and> normalizeGeometry (Point p) = (if coordsOutOfBounds (Point p) then Inl 400 else Inr (Point p))"
  by (simp add: normalizeGeometry_def)


section \<open>Properties of the cache\<close>

subsection \<open>The cache key\<close>

lemma digit_char_inj: "a < 10 \<Longrightarrow> b < 10 \<Longrightarrow> digit_char a = digit_char b \<Longrightarrow> a = b"
proof -
  assume a: "a < 10" and b: "b < 10" and e: "digit_char a = digit_char b"
  have d: "distinct ''0123456789''" by simp
  from a b have "a < length ''0123456789''" "b < length ''0123456789''" by simp_all
  with d e show "a = b" unfolding digit_char_def by (simp only: nth_eq_iff_index_eq)
qed

lemma digit_char_not_dash: "d < 10 \<Longrightarrow> digit_char d \<noteq> CHR ''-''"
proof -
  assume "d < 10"
  then have "d < length ''0123456789''" by simp
  then have "''0123456789'' ! d \<in> set ''0123456789''" by (rule nth_mem)
  then show ?thesis unfolding digit_char_def by auto
qed

lemma number_toString_no_dash: "CHR ''-'' \<notin> set (number_toString n)"
proof (induction n rule: number_toString.induct)
  case (1 n)
  show ?case
  proof (cases "n < 10")
    case True
    then show ?thesis using digit_char_not_dash [of n] by (subst number_toString.simps) auto
  next
    case False
    have "n mod 10 < 10" by simp
    from digit_char_not_dash [OF this] 1 [OF False] False show ?thesis
      by (subst number_toString.simps) auto
  qed
qed

lemma number_toString_nonempty: "number_toString n \<noteq> []"
  by (subst number_toString.simps) simp

lemma number_toString_inj: "number_toString n = number_toString m \<Longrightarrow> n = m"
proof (induction n arbitrary: m rule: number_toString.induct)
  case (1 n)
  show ?case
  proof (cases "n < 10")
    case n: True
    show ?thesis
    proof (cases "m < 10")
      case True
      with n 1(2) show ?thesis
        by (simp add: number_toString.simps [of n] number_toString.simps [of m] digit_char_inj)
    next
      case False
      with n 1(2) number_toString_nonempty [of "m div 10"] show ?thesis
        by (simp add: number_toString.simps [of n] number_toString.simps [of m])
    qed
  next
    case n: False
    show ?thesis
    proof (cases "m < 10")
      case True
      with n 1(2) number_toString_nonempty [of "n div 10"] show ?thesis
        by (simp add: number_toString.simps [of n] number_toString.simps [of m])
    next
      case False
      with n 1(2) have e: "number_toString (n div 10) = number_toString (m div 10)"
        and d: "digit_char (n mod 10) = digit_char (m mod 10)"
        by (simp_all add: number_toString.simps [of n] number_toString.simps [of m])
      from "1.IH" [OF n e] have "n div 10 = m div 10" .
      moreover from d have "n mod 10 = m mod 10" by (intro digit_char_inj) simp_all
      ultimately show ?thesis by (metis div_mult_mod_eq)
    qed
  qed
qed

lemma split_at_dash:
  "CHR ''-'' \<notin> set a \<Longrightarrow> CHR ''-'' \<notin> set a' \<Longrightarrow>
     a @ CHR ''-'' # r = a' @ CHR ''-'' # r' \<Longrightarrow> a = a' \<and> r = r'"
proof (induction a arbitrary: a')
  case Nil
  then show ?case by (cases a') auto
next
  case (Cons c a)
  then show ?case by (cases a') auto
qed

lemma split_at_last_dash:
  assumes "CHR ''-'' \<notin> set a" "CHR ''-'' \<notin> set a'" "r @ CHR ''-'' # a = r' @ CHR ''-'' # a'"
  shows "a = a' \<and> r = r'"
proof -
  from assms(3) have "rev (r @ CHR ''-'' # a) = rev (r' @ CHR ''-'' # a')" by simp
  then have "rev a @ CHR ''-'' # rev r = rev a' @ CHR ''-'' # rev r'" by simp
  with assms(1,2) have "rev a = rev a' \<and> rev r = rev r'"
    by (intro split_at_dash) simp_all
  then show ?thesis by simp
qed

lemma cacheKey_inj:
  assumes "CHR ''-'' \<notin> set layers" "CHR ''-'' \<notin> set layers'"
    and "cacheKey layers x y bbox width height = cacheKey layers' x' y' bbox' width' height'"
    and "list_all (\<lambda>n. n \<le> MAX_SAFE_INTEGER) [x, y, width, height, x', y', width', height']"
  shows "layers = layers' \<and> x = x' \<and> y = y' \<and> bbox = bbox' \<and> width = width' \<and> height = height'"
proof -
  note nd = number_toString_no_dash
  from assms(3) have k: "layers @ CHR ''-'' # (number_toString x @ CHR ''-'' # (number_toString y @ CHR ''-'' # 
        (bbox @ CHR ''-'' # number_toString width) @ CHR ''-'' # number_toString height))
     = layers' @ CHR ''-'' # (number_toString x' @ CHR ''-'' # (number_toString y' @ CHR ''-'' # 
        (bbox' @ CHR ''-'' # number_toString width') @ CHR ''-'' # number_toString height'))"
    by (simp add: cacheKey_def)
  from split_at_dash [OF assms(1,2) k] have l: "layers = layers'"
    and k1: "number_toString x @ CHR ''-'' # (number_toString y @ CHR ''-'' # 
        (bbox @ CHR ''-'' # number_toString width) @ CHR ''-'' # number_toString height)
     = number_toString x' @ CHR ''-'' # (number_toString y' @ CHR ''-'' # 
        (bbox' @ CHR ''-'' # number_toString width') @ CHR ''-'' # number_toString height')"
    by simp_all
  from split_at_dash [OF nd nd k1] have x: "number_toString x = number_toString x'"
    and k2: "number_toString y @ CHR ''-'' # 
        (bbox @ CHR ''-'' # number_toString width) @ CHR ''-'' # number_toString height
     = number_toString y' @ CHR ''-'' # 
        (bbox' @ CHR ''-'' # number_toString width') @ CHR ''-'' # number_toString height'"
    by simp_all
  from split_at_dash [OF nd nd k2] have y: "number_toString y = number_toString y'"
    and k3: "(bbox @ CHR ''-'' # number_toString width) @ CHR ''-'' # number_toString height
     = (bbox' @ CHR ''-'' # number_toString width') @ CHR ''-'' # number_toString height'"
    by simp_all
  from split_at_last_dash [OF nd nd k3] have h: "number_toString height = number_toString height'"
    and k4: "bbox @ CHR ''-'' # number_toString width = bbox' @ CHR ''-'' # number_toString width'"
    by simp_all
  from split_at_last_dash [OF nd nd k4] have w: "number_toString width = number_toString width'"
    and b: "bbox = bbox'"
    by simp_all
  from l x y b w h show ?thesis by (auto dest: number_toString_inj)
qed


subsection \<open>The map\<close>

lemma is_map_distinct: "is_map m \<Longrightarrow> distinct m"
  by (simp add: is_map_def distinct_map)

lemma is_map_unique: "is_map m \<Longrightarrow> (k, v) \<in> set m \<Longrightarrow> (k, w) \<in> set m \<Longrightarrow> v = w"
  by (auto simp: is_map_def dest: eq_key_imp_eq_value)

lemma is_map_filter: "is_map m \<Longrightarrow> is_map (filter P m)"
  by (simp add: is_map_def distinct_map_filter)

lemma map_get_Some_iff: "is_map m \<Longrightarrow> map_get k m = Some v \<longleftrightarrow> (k, v) \<in> set m"
  by (simp add: is_map_def map_get_def)

lemma map_get_None_iff: "map_get k m = None \<longleftrightarrow> k \<notin> fst ` set m"
  by (simp add: map_get_def map_of_eq_None_iff)

lemma map_set_fresh: "k \<notin> fst ` set m \<Longrightarrow> map_set k v m = m @ [(k, v)]"
  by (induction m) auto

lemma keys_map_set: "fst ` set (map_set k v m) = insert k (fst ` set m)"
  by (induction m) force+

lemma is_map_map_set: "is_map m \<Longrightarrow> is_map (map_set k v m)"
proof (induction m)
  case Nil
  then show ?case by (simp add: is_map_def)
next
  case (Cons e m)
  obtain k' w where e: "e = (k', w)" by (cases e)
  from Cons show ?case
    using keys_map_set [of k v m] by (auto simp: is_map_def e)
qed

lemma map_get_map_set: "map_get k' (map_set k v m) = (if k' = k then Some v else map_get k' m)"
  by (induction m) (auto simp: map_get_def)

lemma length_map_set:
  "length (map_set k v m) = (if k \<in> fst ` set m then length m else Suc (length m))"
  by (induction m) force+

lemma map_get_map_delete:
  "map_get k' (map_delete k m) = (if k' = k then None else map_get k' m)"
  by (induction m) (auto simp: map_get_def map_delete_def)

lemma fold_delete_if:
  "fold (\<lambda>(key, v) m. if P v then map_delete key m else m) es m
     = filter (\<lambda>(k, w). \<forall>v. (k, v) \<in> set es \<longrightarrow> \<not> P v) m"
proof (induction es arbitrary: m)
  case Nil
  then show ?case by simp
next
  case (Cons e es)
  obtain key v where e: "e = (key, v)" by (cases e)
  show ?case
    unfolding e
    by (simp add: Cons.IH map_delete_def) (auto intro!: filter_cong)
qed

lemma fold_delete_all:
  "fold (\<lambda>(key, v) m. map_delete key m) es m = filter (\<lambda>(k, w). k \<notin> fst ` set es) m"
proof -
  have "fold (\<lambda>(key, v) m. map_delete key m) es m
      = fold (\<lambda>(key, v) m. if (\<lambda>_. True) v then map_delete key m else m) es m"
    by simp
  also have "\<dots> = filter (\<lambda>(k, w). \<forall>v. (k, v) \<in> set es \<longrightarrow> \<not> True) m"
    by (rule fold_delete_if)
  also have "\<dots> = filter (\<lambda>(k, w). k \<notin> fst ` set es) m"
    by (rule filter_cong) force+
  finally show ?thesis .
qed

lemma sweep_expired:
  assumes "is_map c"
  shows "fold (\<lambda>(key, v) m. if P v then map_delete key m else m) c c = filter (\<lambda>(k, w). \<not> P w) c"
  unfolding fold_delete_if
  using is_map_unique [OF assms] by (intro filter_cong) auto

lemma remove_subset:
  assumes "is_map m" "set rs \<subseteq> set m"
  shows "filter (\<lambda>(k, w). k \<notin> fst ` set rs) m = filter (\<lambda>e. e \<notin> set rs) m"
proof (rule filter_cong [OF refl])
  fix e assume "e \<in> set m"
  obtain k w where e: "e = (k, w)" by (cases e)
  have "k \<in> fst ` set rs \<longleftrightarrow> (k, w) \<in> set rs"
  proof
    assume "k \<in> fst ` set rs"
    then obtain w' where r: "(k, w') \<in> set rs" by force
    with assms(2) have "(k, w') \<in> set m" by auto
    with \<open>e \<in> set m\<close> e assms(1) have "w' = w" by (auto dest: is_map_unique)
    with r show "(k, w) \<in> set rs" by simp
  qed force
  then show "(case e of (k, w) \<Rightarrow> k \<notin> fst ` set rs) = (e \<notin> set rs)"
    by (simp add: e)
qed

lemma length_remove:
  assumes "distinct m" "distinct rs" "set rs \<subseteq> set m"
  shows "length (filter (\<lambda>e. e \<notin> set rs) m) = length m - length rs"
proof -
  have "length (filter (\<lambda>e. e \<in> set rs) m) = card ({e. e \<in> set rs} \<inter> set m)"
    using assms(1) by (rule distinct_length_filter)
  also have "{e. e \<in> set rs} \<inter> set m = set rs" using assms(3) by auto
  also have "card (set rs) = length rs" using assms(2) by (rule distinct_card)
  finally have "length (filter (\<lambda>e. e \<in> set rs) m) = length rs" .
  moreover have "length (filter (\<lambda>e. e \<in> set rs) m) + length (filter (\<lambda>e. \<not> e \<in> set rs) m) = length m"
    by (rule sum_length_filter_compl)
  ultimately show ?thesis by simp
qed

lemma cleanupCache_eq:
  assumes "is_map c"
  shows "cleanupCache now c =
     (if length (kept_entries now c) > MAX_CACHE_SIZE
      then filter (\<lambda>e. e \<notin> set (take (length (kept_entries now c) - MAX_CACHE_SIZE)
                                   (sort_key (\<lambda>(key, v). timestamp v) (kept_entries now c))))
             (kept_entries now c)
      else kept_entries now c)"
proof -
  have 1: "fold (\<lambda>(key, v) m. if now - timestamp v > CACHE_TTL then map_delete key m else m) c c
        = kept_entries now c"
    unfolding sweep_expired [OF assms, of "\<lambda>v. now - timestamp v > CACHE_TTL"] kept_entries_def
    by (intro filter_cong) auto
  have 2: "is_map (kept_entries now c)" unfolding kept_entries_def using assms by (rule is_map_filter)
  have 3: "set (take n (sort_key (\<lambda>(key, v). timestamp v) (kept_entries now c))) \<subseteq> set (kept_entries now c)" for n
    using set_take_subset [of n "sort_key (\<lambda>(key, v). timestamp v) (kept_entries now c)"] by simp
  show ?thesis
    unfolding cleanupCache_def Let_def 1 kept_entries_def [symmetric] fold_delete_all
      remove_subset [OF 2 3]
    by simp
qed

lemma cleanupCache_length:
  assumes "is_map c"
  shows "length (cleanupCache now c) \<le> MAX_CACHE_SIZE"
proof (cases "length (kept_entries now c) > MAX_CACHE_SIZE")
  case False
  then show ?thesis by (simp add: cleanupCache_eq [OF assms])
next
  case True
  let ?s = "sort_key (\<lambda>(key, v). timestamp v) (kept_entries now c)"
  let ?n = "length (kept_entries now c) - MAX_CACHE_SIZE"
  have d: "distinct (kept_entries now c)"
    using assms by (simp add: kept_entries_def is_map_distinct)
  then have "distinct (take ?n ?s)" by simp
  moreover have "set (take ?n ?s) \<subseteq> set (kept_entries now c)"
    using set_take_subset [of ?n ?s] by simp
  ultimately have "length (filter (\<lambda>e. e \<notin> set (take ?n ?s)) (kept_entries now c))
      = length (kept_entries now c) - length (take ?n ?s)"
    using d by (intro length_remove)
  with True show ?thesis by (simp add: cleanupCache_eq [OF assms])
qed


lemma is_map_cleanupCache: "is_map c \<Longrightarrow> is_map (cleanupCache now c)"
  by (simp add: cleanupCache_eq kept_entries_def is_map_filter)

lemma set_cleanupCache: "is_map c \<Longrightarrow> set (cleanupCache now c) \<subseteq> set (kept_entries now c)"
  by (auto simp: cleanupCache_eq)

lemma cleanupCache_evicts_oldest:
  assumes "is_map c" "e \<in> set (kept_entries now c)" "e \<notin> set (cleanupCache now c)"
    and "e' \<in> set (cleanupCache now c)"
  shows "timestamp (snd e) \<le> timestamp (snd e')"
proof -
  let ?f = "\<lambda>(key, v). timestamp v"
  let ?s = "sort_key ?f (kept_entries now c)"
  let ?n = "length (kept_entries now c) - MAX_CACHE_SIZE"
  from assms(2,3) have big: "length (kept_entries now c) > MAX_CACHE_SIZE"
    by (auto simp: cleanupCache_eq [OF assms(1)] split: if_splits)
  with assms(2,3) have e: "e \<in> set (take ?n ?s)"
    by (auto simp: cleanupCache_eq [OF assms(1)])
  from big assms(4) have "e' \<in> set (kept_entries now c)" "e' \<notin> set (take ?n ?s)"
    by (auto simp: cleanupCache_eq [OF assms(1)])
  moreover have "set ?s = set (take ?n ?s) \<union> set (drop ?n ?s)"
    by (metis append_take_drop_id set_append)
  ultimately have e': "e' \<in> set (drop ?n ?s)" by simp
  have "sorted (map ?f (take ?n ?s @ drop ?n ?s))" by simp
  then have "\<forall>x \<in> set (take ?n ?s). \<forall>y \<in> set (drop ?n ?s). ?f x \<le> ?f y"
    unfolding map_append sorted_append by auto
  with e e' have "?f e \<le> ?f e'" by blast
  then show ?thesis by (simp add: case_prod_beta)
qed

lemma filter_not_in_take:
  assumes "distinct xs"
  shows "filter (\<lambda>e. e \<notin> set (take n xs)) xs = drop n xs"
proof -
  have disj: "set (take n xs) \<inter> set (drop n xs) = {}"
    using assms by (rule set_take_disj_set_drop_if_distinct) simp
  have "filter (\<lambda>e. e \<notin> set (take n xs)) xs
      = filter (\<lambda>e. e \<notin> set (take n xs)) (take n xs) @ filter (\<lambda>e. e \<notin> set (take n xs)) (drop n xs)"
    by (metis append_take_drop_id filter_append)
  also have "filter (\<lambda>e. e \<notin> set (take n xs)) (take n xs) = []" by simp
  also have "filter (\<lambda>e. e \<notin> set (take n xs)) (drop n xs) = drop n xs"
    using disj by (intro filter_True) auto
  finally show ?thesis by simp
qed

lemma cleanupCache_keeps_newest:
  assumes "is_map c"
    and "list_all (\<lambda>(key, v). now - timestamp v \<le> CACHE_TTL) c"
    and "sorted (map (\<lambda>(key, v). timestamp v) c)"
    and "length c = MAX_CACHE_SIZE + n"
  shows "cleanupCache now c = drop n c"
proof -
  from assms(2) have k: "kept_entries now c = c"
    by (simp add: kept_entries_def list_all_iff)
  from assms(3) have s: "sort_key (\<lambda>(key, v). timestamp v) c = c"
    by (rule sort_key_id_if_sorted)
  show ?thesis
    using assms(4) filter_not_in_take [OF is_map_distinct [OF assms(1)], of n]
    by (simp add: cleanupCache_eq [OF assms(1)] k s)
qed

subsection \<open>Serving requests\<close>

lemma serve_all_append:
  "serve_all fetch now (qs @ [q]) c
     = snd (feature_info_handler fetch now now (Some q) (serve_all fetch now qs c))"
  by (induction qs arbitrary: c) simp_all

lemma sample_key_inj:
  assumes "i \<le> MAX_SAFE_INTEGER" "j \<le> MAX_SAFE_INTEGER"
    and "query_key (sample_query i) = query_key (sample_query j)"
  shows "i = j"
proof -
  from assms(3)
  have "cacheKey ''roads'' i 0 ''0,0,1,1'' 256 256 = cacheKey ''roads'' j 0 ''0,0,1,1'' 256 256"
    by (simp add: query_key_def sample_query_def)
  moreover have "list_all (\<lambda>n. n \<le> MAX_SAFE_INTEGER) [i, 0, 256, 256, j, 0, 256, 256]"
    using assms(1,2) by (simp add: MAX_SAFE_INTEGER_def)
  ultimately show "i = j" using cacheKey_inj [of "''roads''" "''roads''" i 0 "''0,0,1,1''" 256 256 j 0 "''0,0,1,1''" 256 256]
    by simp
qed

lemma handler_miss_ok:
  assumes "query_key q \<notin> fst ` set c" "fetch q = ResponseOk d"
  shows "feature_info_handler fetch now1 now2 (Some q) c
           = (Json d, c @ [(query_key q, \<lparr>data = d, timestamp = now2\<rparr>)])"
proof -
  from assms(1) have "map_get (query_key q) c = None" by (simp add: map_get_None_iff)
  then have "cache_get now1 (query_key q) c = None" by (simp add: cache_get_def)
  with assms show ?thesis
    by (simp add: feature_info_handler_def cache_put_def map_set_fresh)
qed

lemma serve_all_sample:
  "n \<le> MAX_SAFE_INTEGER \<Longrightarrow>
   serve_all always_ok now (sample_queries n) []
     = map (\<lambda>i. (query_key (sample_query i), \<lparr>data = (), timestamp = now\<rparr>)) [0 ..< n]"
proof (induction n)
  case 0
  show ?case by (simp add: sample_queries_def)
next
  case (Suc n)
  let ?c = "map (\<lambda>i. (query_key (sample_query i), \<lparr>data = (), timestamp = now\<rparr>)) [0 ..< n]"
  from Suc.prems have n: "n \<le> MAX_SAFE_INTEGER" by simp
  have fresh: "query_key (sample_query n) \<notin> fst ` set ?c"
  proof
    assume "query_key (sample_query n) \<in> fst ` set ?c"
    then obtain i where i: "i < n" "query_key (sample_query n) = query_key (sample_query i)"
      by auto
    from i(1) n have "i \<le> MAX_SAFE_INTEGER" by simp
    from sample_key_inj [OF n this i(2)] i(1) show False by simp
  qed
  have "serve_all always_ok now (sample_queries (Suc n)) []
      = snd (feature_info_handler always_ok now now (Some (sample_query n)) ?c)"
    using Suc.IH [OF n] by (simp add: sample_queries_def serve_all_append)
  also have "\<dots> = ?c @ [(query_key (sample_query n), \<lparr>data = (), timestamp = now\<rparr>)]"
    using handler_miss_ok [OF fresh, of always_ok "()" now now] by (simp add: always_ok_def)
  finally show ?case by simp
qed

lemma live_entries_sample:
  "n \<le> MAX_SAFE_INTEGER \<Longrightarrow>
   length (live_entries now (serve_all always_ok now (sample_queries n) [])) = n"
  by (simp add: serve_all_sample live_entries_def CACHE_TTL_def filter_map comp_def)

text \<open>
  What a store does: the entry for the key is the new one, with \<open>timestamp\<close> the time of
  the store, every other entry is as it was, and the map stays a map.
\<close>

lemma cache_put_entry:
  "map_get key (cache_put now key d wmsCache) = Some \<lparr>data = d, timestamp = now\<rparr>
   \<and> (\<forall>k. k \<noteq> key \<longrightarrow> map_get k (cache_put now key d wmsCache) = map_get k wmsCache)
   \<and> (is_map wmsCache \<longrightarrow> is_map (cache_put now key d wmsCache))"
  by (simp add: cache_put_def map_get_map_set is_map_map_set)

lemma is_map_handler:
  assumes "is_map wmsCache"
  shows "is_map (snd (feature_info_handler fetch now1 now2 query wmsCache))"
  using assms
  by (auto simp: feature_info_handler_def Let_def cache_put_def is_map_map_set
        split: option.splits upstream.splits)

lemma is_map_serve_all:
  "is_map wmsCache \<Longrightarrow> is_map (serve_all fetch now qs wmsCache)"
  by (induction qs arbitrary: wmsCache) (simp_all add: is_map_handler)

subsection \<open>Claims\<close>

text \<open>
  C1.  A store inserts or overwrites the entry for its key with \<open>timestamp\<close> the current
  time (\<open>cache_put_entry\<close>), and a cleanup pass leaves at most \<open>MAX_CACHE_SIZE\<close> entries
  (\<open>cleanupCache_length\<close>), but the handler does not run a cleanup pass after its store:
  when 1001 requests with different keys are served one after the other on an empty
  cache, with an upstream server that answers each, the cache holds 1001 entries that a
  probe would answer with, one more than \<open>MAX_CACHE_SIZE\<close>, the maximum number of
  cached items.  A cleanup pass on that cache would bring it back to the bound.
\<close>

theorem store_without_cleanup:
  "MAX_CACHE_SIZE = 1000
   \<and> length (live_entries 0 (serve_all always_ok 0 (sample_queries 1001) [])) = 1001
   \<and> MAX_CACHE_SIZE < length (live_entries 0 (serve_all always_ok 0 (sample_queries 1001) []))
   \<and> length (cleanupCache 0 (serve_all always_ok 0 (sample_queries 1001) [])) \<le> MAX_CACHE_SIZE"
proof -
  have "(1001 :: nat) \<le> MAX_SAFE_INTEGER" by (simp add: MAX_SAFE_INTEGER_def)
  then have "length (live_entries 0 (serve_all always_ok 0 (sample_queries 1001) [])) = 1001"
    by (rule live_entries_sample)
  moreover have "is_map ([] :: unit wms_cache)" by (simp add: is_map_def)
  then have "is_map (serve_all always_ok 0 (sample_queries 1001) [])"
    by (rule is_map_serve_all)
  then have "length (cleanupCache 0 (serve_all always_ok 0 (sample_queries 1001) [])) \<le> MAX_CACHE_SIZE"
    by (rule cleanupCache_length)
  ultimately show ?thesis by (simp add: MAX_CACHE_SIZE_def)
qed

text \<open>
  C2.  The key is a function of the six parameters, so equal tuples give equal keys.  It
  is not injective: the separator \<open>-\<close> may occur in \<open>layers\<close> and in \<open>bbox\<close>, and the two
  requests below, which differ in \<open>layers\<close>, \<open>x\<close>, \<open>y\<close> and \<open>bbox\<close>, get the same key
  \<open>landsat-8-1-2-3,4,5,6-256-256\<close>.
\<close>

theorem cacheKey_collision:
  "cacheKey ''landsat-8'' 1 2 ''3,4,5,6'' 256 256 = cacheKey ''landsat'' 8 1 ''2-3,4,5,6'' 256 256
   \<and> ''landsat-8'' \<noteq> ''landsat''
   \<and> (1::nat) \<noteq> 8 \<and> (2::nat) \<noteq> 1
   \<and> ''3,4,5,6'' \<noteq> ''2-3,4,5,6''"
  by code_simp

text \<open>
  C3.  At time \<open>now\<close> the probe answers with a value exactly when the map has an entry for
  the key, \<open>now - timestamp < CACHE_TTL\<close> holds for it, and the value is its \<open>data\<close>; it
  misses exactly when there is no such entry.  On a hit the handler answers the request
  with the stored value, whatever the upstream server would say, and leaves the cache as
  it is; on a miss its answer is made from the upstream response alone.  An entry with
  \<open>now - timestamp \<ge> CACHE_TTL\<close> that is still in the map is a miss, as it is once the entry
  has been deleted, and the handler answers the request in the same way in both cases.
\<close>

theorem cache_get_hit_iff:
  "(cache_get now key wmsCache = Some v \<longleftrightarrow>
      (\<exists>cached. map_get key wmsCache = Some cached \<and> now - timestamp cached < CACHE_TTL
         \<and> data cached = v))
   \<and> (cache_get now key wmsCache = None \<longleftrightarrow>
        \<not> (\<exists>cached. map_get key wmsCache = Some cached \<and> now - timestamp cached < CACHE_TTL))
   \<and> (map_get (query_key q) wmsCache = Some fresh \<and> now - timestamp fresh < CACHE_TTL \<longrightarrow>
        feature_info_handler fetch now now' (Some q) wmsCache = (Json (data fresh), wmsCache))
   \<and> (\<not> (\<exists>cached. map_get (query_key q) wmsCache = Some cached
              \<and> now - timestamp cached < CACHE_TTL) \<longrightarrow>
        feature_info_handler fetch now now' (Some q) wmsCache
          = (case fetch q of
               ResponseOk d \<Rightarrow> (Json d, cache_put now' (query_key q) d wmsCache)
             | FetchRejects \<Rightarrow> (ErrorStatus 500, wmsCache)
             | ResponseNotOk \<Rightarrow> (ErrorStatus 500, wmsCache)
             | JsonRejects \<Rightarrow> (ErrorStatus 500, wmsCache)))
   \<and> (map_get (query_key q) wmsCache = Some expired \<and> now - timestamp expired \<ge> CACHE_TTL \<longrightarrow>
        cache_get now (query_key q) wmsCache = None
        \<and> cache_get now (query_key q) (map_delete (query_key q) wmsCache) = None
        \<and> fst (feature_info_handler fetch now now' (Some q) wmsCache)
            = fst (feature_info_handler fetch now now' (Some q) (map_delete (query_key q) wmsCache)))"
proof -
  have 1: "cache_get now key wmsCache = Some v \<longleftrightarrow>
      (\<exists>cached. map_get key wmsCache = Some cached \<and> now - timestamp cached < CACHE_TTL
         \<and> data cached = v)"
    by (auto simp: cache_get_def split: option.splits)
  have 2: "cache_get now k wmsCache = None \<longleftrightarrow>
        \<not> (\<exists>cached. map_get k wmsCache = Some cached \<and> now - timestamp cached < CACHE_TTL)"
    for k
    by (auto simp: cache_get_def split: option.splits)
  have hit: "feature_info_handler fetch now now' (Some q) wmsCache = (Json (data fresh), wmsCache)"
    if "map_get (query_key q) wmsCache = Some fresh" "now - timestamp fresh < CACHE_TTL"
  proof -
    from that have "cache_get now (query_key q) wmsCache = Some (data fresh)"
      by (simp add: cache_get_def)
    then show ?thesis by (simp add: feature_info_handler_def Let_def)
  qed
  have miss: "feature_info_handler fetch now now' (Some q) wmsCache
          = (case fetch q of
               ResponseOk d \<Rightarrow> (Json d, cache_put now' (query_key q) d wmsCache)
             | FetchRejects \<Rightarrow> (ErrorStatus 500, wmsCache)
             | ResponseNotOk \<Rightarrow> (ErrorStatus 500, wmsCache)
             | JsonRejects \<Rightarrow> (ErrorStatus 500, wmsCache))"
    if "\<not> (\<exists>cached. map_get (query_key q) wmsCache = Some cached
              \<and> now - timestamp cached < CACHE_TTL)"
  proof -
    from that 2 [of "query_key q"] have "cache_get now (query_key q) wmsCache = None"
      by blast
    then show ?thesis
      by (simp add: feature_info_handler_def Let_def split: upstream.splits)
  qed
  have 3: "cache_get now (query_key q) wmsCache = None
        \<and> cache_get now (query_key q) (map_delete (query_key q) wmsCache) = None
        \<and> fst (feature_info_handler fetch now now' (Some q) wmsCache)
            = fst (feature_info_handler fetch now now' (Some q) (map_delete (query_key q) wmsCache))"
    if "map_get (query_key q) wmsCache = Some expired" "now - timestamp expired \<ge> CACHE_TTL"
  proof -
    from that have a: "cache_get now (query_key q) wmsCache = None"
      by (simp add: cache_get_def)
    have b: "cache_get now (query_key q) (map_delete (query_key q) wmsCache) = None"
      by (simp add: cache_get_def map_get_map_delete)
    from a b show ?thesis
      by (simp add: feature_info_handler_def Let_def split: upstream.splits)
  qed
  from 1 2 [of key] hit miss 3 show ?thesis by blast
qed

theorem cache_get_hit_iff_witness:
  "map_get (query_key (sample_query 0)) [(query_key (sample_query 0), \<lparr>data = 7 :: nat, timestamp = 0\<rparr>)]
     = Some \<lparr>data = 7, timestamp = 0\<rparr>
   \<and> (299999 :: int) - timestamp \<lparr>data = 7 :: nat, timestamp = 0\<rparr> < CACHE_TTL
   \<and> (300000 :: int) - timestamp \<lparr>data = 7 :: nat, timestamp = 0\<rparr> \<ge> CACHE_TTL
   \<and> cache_get 299999 (query_key (sample_query 0))
        [(query_key (sample_query 0), \<lparr>data = 7 :: nat, timestamp = 0\<rparr>)] = Some 7
   \<and> cache_get 300000 (query_key (sample_query 0))
        [(query_key (sample_query 0), \<lparr>data = 7 :: nat, timestamp = 0\<rparr>)] = None
   \<and> feature_info_handler (answers 9) 299999 299999 (Some (sample_query 0))
        [(query_key (sample_query 0), \<lparr>data = 7 :: nat, timestamp = 0\<rparr>)]
       = (Json 7, [(query_key (sample_query 0), \<lparr>data = 7, timestamp = 0\<rparr>)])
   \<and> feature_info_handler (answers 9) 300000 300000 (Some (sample_query 0))
        [(query_key (sample_query 0), \<lparr>data = 7 :: nat, timestamp = 0\<rparr>)]
       = (Json 9, [(query_key (sample_query 0), \<lparr>data = 9, timestamp = 300000\<rparr>)])
   \<and> fst (feature_info_handler (answers 9) 300000 300000 (Some (sample_query 0))
        [(query_key (sample_query 0), \<lparr>data = 7 :: nat, timestamp = 0\<rparr>)])
      = fst (feature_info_handler (answers 9) 300000 300000 (Some (sample_query 0)) [])"
  using cache_get_hit_iff [of 300000 "query_key (sample_query 0)"
      "[(query_key (sample_query 0), \<lparr>data = 7 :: nat, timestamp = 0\<rparr>)]" 7 "sample_query 0"
      "\<lparr>data = 7 :: nat, timestamp = 0\<rparr>" "answers 9" 300000 "\<lparr>data = 7 :: nat, timestamp = 0\<rparr>"]
    cache_get_hit_iff [of 299999 "query_key (sample_query 0)"
      "[(query_key (sample_query 0), \<lparr>data = 7 :: nat, timestamp = 0\<rparr>)]" 7 "sample_query 0"
      "\<lparr>data = 7 :: nat, timestamp = 0\<rparr>" "answers 9" 299999 "\<lparr>data = 7 :: nat, timestamp = 0\<rparr>"]
  by (simp add: map_get_def map_delete_def CACHE_TTL_def answers_def cache_put_def
        feature_info_handler_def cache_get_def Let_def)

text \<open>
  C4.  The first loop of \<open>cleanupCache\<close> deletes an entry when \<open>now - timestamp > CACHE_TTL\<close>,
  so an entry with \<open>now - timestamp = CACHE_TTL\<close> stays in the map, although the probe of
  the handler no longer answers with it.
\<close>

theorem cleanupCache_boundary:
  "(300000 :: int) - 0 \<ge> CACHE_TTL
   \<and> cleanupCache 300000 [(''k'', \<lparr>data = (), timestamp = 0\<rparr>)]
       = [(''k'', \<lparr>data = (), timestamp = 0\<rparr>)]
   \<and> cache_get 300000 ''k'' [(''k'', \<lparr>data = (), timestamp = 0\<rparr>)] = None"
  by (simp add: cleanupCache_def CACHE_TTL_def MAX_CACHE_SIZE_def cache_get_def map_get_def)

text \<open>
  C8.  When the probe misses and the upstream request fails (\<open>fetch\<close> rejects, the response
  is not OK, or its body does not parse), the handler answers with the error status \<open>500\<close>
  and the cache is the one it was given.  Whenever the handler leaves a cache other than
  the one it was given, the upstream response was OK and the cache is the old one with
  that response stored under the key of the request.
\<close>

theorem upstream_failure_keeps_cache:
  assumes "cache_get now1 (query_key q) wmsCache = None"
    and "fetch q = FetchRejects \<or> fetch q = ResponseNotOk \<or> fetch q = JsonRejects"
  shows "feature_info_handler fetch now1 now2 (Some q) wmsCache = (ErrorStatus 500, wmsCache)
       \<and> (snd (feature_info_handler fetch' now1' now2' query' wmsCache') \<noteq> wmsCache' \<longrightarrow>
            (\<exists>q' d. query' = Some q' \<and> fetch' q' = ResponseOk d
               \<and> cache_get now1' (query_key q') wmsCache' = None
               \<and> feature_info_handler fetch' now1' now2' query' wmsCache'
                   = (Json d, cache_put now2' (query_key q') d wmsCache')))"
proof -
  from assms have "feature_info_handler fetch now1 now2 (Some q) wmsCache = (ErrorStatus 500, wmsCache)"
    by (auto simp: feature_info_handler_def Let_def)
  moreover have "snd (feature_info_handler fetch' now1' now2' query' wmsCache') \<noteq> wmsCache' \<longrightarrow>
            (\<exists>q' d. query' = Some q' \<and> fetch' q' = ResponseOk d
               \<and> cache_get now1' (query_key q') wmsCache' = None
               \<and> feature_info_handler fetch' now1' now2' query' wmsCache'
                   = (Json d, cache_put now2' (query_key q') d wmsCache'))"
    by (auto simp: feature_info_handler_def Let_def split: option.splits upstream.splits)
  ultimately show ?thesis by simp
qed

theorem upstream_failure_keeps_cache_witness:
  "cache_get 5 (query_key (sample_query 1)) [(query_key (sample_query 0), \<lparr>data = (), timestamp = 0\<rparr>)] = None
   \<and> never_ok (sample_query 1) = ResponseNotOk
   \<and> feature_info_handler never_ok 5 6 (Some (sample_query 1))
        [(query_key (sample_query 0), \<lparr>data = (), timestamp = 0\<rparr>)]
       = (ErrorStatus 500, [(query_key (sample_query 0), \<lparr>data = (), timestamp = 0\<rparr>)])
   \<and> snd (feature_info_handler always_ok 5 6 (Some (sample_query 1)) []) \<noteq> []
   \<and> feature_info_handler always_ok 5 6 (Some (sample_query 1)) []
       = (Json (), cache_put 6 (query_key (sample_query 1)) () [])"
proof -
  have miss: "cache_get 5 (query_key (sample_query 1))
      [(query_key (sample_query 0), \<lparr>data = (), timestamp = 0\<rparr>)] = None"
    using sample_key_inj [of 1 0] by (auto simp: cache_get_def map_get_def MAX_SAFE_INTEGER_def)
  have bad: "never_ok (sample_query 1) = FetchRejects \<or> never_ok (sample_query 1) = ResponseNotOk
      \<or> never_ok (sample_query 1) = JsonRejects"
    by (simp add: never_ok_def)
  have changed: "snd (feature_info_handler always_ok 5 6 (Some (sample_query 1)) []) \<noteq> []"
    by (simp add: feature_info_handler_def Let_def cache_get_def map_get_def always_ok_def cache_put_def)
  from upstream_failure_keeps_cache [of 5 "sample_query 1"
      "[(query_key (sample_query 0), \<lparr>data = (), timestamp = 0\<rparr>)]" never_ok
      6 always_ok 5 6 "Some (sample_query 1)" "[]"]
    miss bad changed
  show ?thesis by (auto simp: never_ok_def always_ok_def)
qed


end
